theory Spec2Isabelle
  imports Main "HOL-Library.Product_Lexorder" "HOL-Library.List_Lexorder" "HOL-Library.Char_ord"
begin

section \<open>The AVL tree of avl\_tree\_production.py\<close>

text \<open>
  The embedding follows \<^verbatim>\<open>src/avl_tree_production.py\<close>. A node object with its fields
  \<^verbatim>\<open>val, left, right, height\<close> is a constructor of \<open>avl_node\<close>, and Python's
  \<^verbatim>\<open>None\<close> in a child slot is \<open>NoNode\<close>. Every child slot has exactly one owner (a node is
  never reachable through two slots), so the in-place updates of the source are modelled by
  rebuilding the node. Cached heights, sizes and the two limits are Python integers, hence
  \<open>int\<close>. The lock and the logging have no effect on the values computed and are left out,
  and so is the interpreter's own recursion limit.

  The keys stored in one tree are values of one ordered type \<open>'a\<close> (\<open>linorder\<close>): the
  comparisons \<^verbatim>\<open>key < node.val\<close> and \<^verbatim>\<open>key > node.val\<close> between two such keys always return.
  What a caller can pass as a key is a \<open>pykey\<close>: \<^verbatim>\<open>None\<close>, an object whose type has no
  \<^verbatim>\<open><\<close> and \<^verbatim>\<open>>\<close>, or a value of the ordered type.

  A raised exception is the left summand of the result. \<^verbatim>\<open>AttributeError\<close> and \<^verbatim>\<open>TypeError\<close> are
  Python's own: reading a field of \<^verbatim>\<open>None\<close>, and comparing values of types that have no
  common order.
\<close>

subsection \<open>Exceptions\<close>

datatype error =
    AVLTreeKeyError
  | AVLTreeCapacityError
  | AVLTreeDepthError
  | TypeError
  | AttributeError

subsection \<open>Nodes\<close>

datatype 'a avl_node =
    NoNode
  | AVLNode 'a "'a avl_node" "'a avl_node" int

text \<open>The arguments of \<open>AVLNode\<close> are \<^verbatim>\<open>val\<close>, \<^verbatim>\<open>left\<close>, \<^verbatim>\<open>right\<close>, \<^verbatim>\<open>height\<close>, in the order of
  \<^verbatim>\<open>__slots__\<close>. \<^verbatim>\<open>AVLNode(key)\<close> builds \<open>AVLNode key NoNode NoNode 1\<close>.\<close>

datatype 'a pykey =
    PyNone
  | PyUnordered
  | Key 'a

record 'a avl_tree =
  root :: "'a avl_node"
  size_avl :: int
  max_size :: "int option"
  max_depth :: int

definition init :: "int option \<Rightarrow> int \<Rightarrow> 'a avl_tree" where
  "init new_max_size new_max_depth =
     \<lparr>root = NoNode, size_avl = 0, max_size = new_max_size, max_depth = new_max_depth\<rparr>"

text \<open>\<^verbatim>\<open>AVLTree()\<close> with its default arguments is \<open>init None 1000\<close>.\<close>

subsection \<open>Key validation\<close>

text \<open>\<^verbatim>\<open>_validate_key\<close> raises for \<^verbatim>\<open>None\<close>, and turns the \<^verbatim>\<open>TypeError\<close> of
  \<^verbatim>\<open>key < key\<close> into the key error. The model hands back the ordered value.\<close>

fun validate_key :: "'a pykey \<Rightarrow> error + 'a" where
  "validate_key PyNone = Inl AVLTreeKeyError"
| "validate_key PyUnordered = Inl AVLTreeKeyError"
| "validate_key (Key k) = Inr k"

subsection \<open>Height, balance factor, rotations\<close>

fun get_height :: "'a avl_node \<Rightarrow> int" where
  "get_height NoNode = 0"
| "get_height (AVLNode v l r h) = h"

fun get_balance_factor :: "'a avl_node \<Rightarrow> int" where
  "get_balance_factor NoNode = 0"
| "get_balance_factor (AVLNode v l r h) = get_height l - get_height r"

text \<open>A rotation reads \<^verbatim>\<open>z.left.right\<close> (or \<^verbatim>\<open>z.right.left\<close>): on a missing child Python
  raises \<^verbatim>\<open>AttributeError\<close>.\<close>

fun rotate_right :: "'a avl_node \<Rightarrow> error + 'a avl_node" where
  "rotate_right (AVLNode zv (AVLNode yv yl T3 yh) zr zh) =
     (let z = AVLNode zv T3 zr (1 + max (get_height T3) (get_height zr));
          y = AVLNode yv yl z (1 + max (get_height yl) (get_height z))
      in Inr y)"
| "rotate_right (AVLNode zv NoNode zr zh) = Inl AttributeError"
| "rotate_right NoNode = Inl AttributeError"

fun rotate_left :: "'a avl_node \<Rightarrow> error + 'a avl_node" where
  "rotate_left (AVLNode zv zl (AVLNode yv T2 yr yh) zh) =
     (let z = AVLNode zv zl T2 (1 + max (get_height zl) (get_height T2));
          y = AVLNode yv z yr (1 + max (get_height z) (get_height yr))
      in Inr y)"
| "rotate_left (AVLNode zv zl NoNode zh) = Inl AttributeError"
| "rotate_left NoNode = Inl AttributeError"

fun rebalance :: "'a avl_node \<Rightarrow> error + 'a avl_node" where
  "rebalance NoNode = Inr NoNode"
| "rebalance (AVLNode v l r h) =
     (let balance = get_balance_factor (AVLNode v l r h) in
      if balance > 1 then
        (let left_balance = get_balance_factor l in
         if left_balance \<ge> 0 then rotate_right (AVLNode v l r h)
         else (case rotate_left l of
                 Inl e \<Rightarrow> Inl e
               | Inr l' \<Rightarrow> rotate_right (AVLNode v l' r h)))
      else if balance < - 1 then
        (let right_balance = get_balance_factor r in
         if right_balance \<le> 0 then rotate_left (AVLNode v l r h)
         else (case rotate_right r of
                 Inl e \<Rightarrow> Inl e
               | Inr r' \<Rightarrow> rotate_left (AVLNode v l r' h)))
      else Inr (AVLNode v l r h))"

subsection \<open>Insertion\<close>

text \<open>\<^verbatim>\<open>_insert_recursive\<close> reads \<^verbatim>\<open>self._max_depth\<close> and updates \<^verbatim>\<open>self._size\<close>: the limit
  is the first argument and the size is passed in and returned with the new subtree. The
  depth error is raised before anything is written, so no update precedes it.\<close>

fun insert_recursive ::
  "int \<Rightarrow> 'a::linorder avl_node \<Rightarrow> 'a \<Rightarrow> int \<Rightarrow> int \<Rightarrow> error + ('a avl_node \<times> int)" where
  "insert_recursive md NoNode key depth sz =
     (if depth > md then Inl AVLTreeDepthError
      else Inr (AVLNode key NoNode NoNode 1, sz + 1))"
| "insert_recursive md (AVLNode v l r h) key depth sz =
     (if depth > md then Inl AVLTreeDepthError
      else if key < v then
        (case insert_recursive md l key (depth + 1) sz of
           Inl e \<Rightarrow> Inl e
         | Inr (l', sz') \<Rightarrow>
             (case rebalance (AVLNode v l' r (1 + max (get_height l') (get_height r))) of
                Inl e \<Rightarrow> Inl e
              | Inr n \<Rightarrow> Inr (n, sz')))
      else if key > v then
        (case insert_recursive md r key (depth + 1) sz of
           Inl e \<Rightarrow> Inl e
         | Inr (r', sz') \<Rightarrow>
             (case rebalance (AVLNode v l r' (1 + max (get_height l) (get_height r'))) of
                Inl e \<Rightarrow> Inl e
              | Inr n \<Rightarrow> Inr (n, sz')))
      else Inr (AVLNode v l r h, sz))"

text \<open>A public method returns its result, or the exception it raised, with the tree
  afterwards. The three exceptions of \<^verbatim>\<open>insert\<close> are raised before any write. (An
  \<^verbatim>\<open>AttributeError\<close> out of a rotation needs a cached height that contradicts the structure;
  \<open>insert_recursive_ok\<close> below shows that it does not arise on a well-formed tree.)\<close>

definition insert_avl :: "'a::linorder avl_tree \<Rightarrow> 'a pykey \<Rightarrow> (error + bool) \<times> 'a avl_tree" where
  "insert_avl self key =
     (case validate_key key of
        Inl e \<Rightarrow> (Inl e, self)
      | Inr k \<Rightarrow>
          if (case max_size self of None \<Rightarrow> False | Some m \<Rightarrow> size_avl self \<ge> m)
          then (Inl AVLTreeCapacityError, self)
          else
            (let current_height = get_height (root self) in
             if current_height \<ge> max_depth self then (Inl AVLTreeDepthError, self)
             else
               (let original_size = size_avl self in
                case insert_recursive (max_depth self) (root self) k 0 (size_avl self) of
                  Inl e \<Rightarrow> (Inl e, self)
                | Inr (n, sz) \<Rightarrow> (Inr (sz > original_size), self\<lparr>root := n, size_avl := sz\<rparr>))))"

subsection \<open>Deletion\<close>

text \<open>\<^verbatim>\<open>_get_min_node\<close> walks left while there is a left child.\<close>

fun get_min_node :: "'a avl_node \<Rightarrow> error + 'a avl_node" where
  "get_min_node NoNode = Inl AttributeError"
| "get_min_node (AVLNode v l r h) =
     (if l = NoNode then Inr (AVLNode v l r h) else get_min_node l)"

fun delete_recursive ::
  "'a::linorder avl_node \<Rightarrow> 'a \<Rightarrow> int \<Rightarrow> error + ('a avl_node \<times> int)" where
  "delete_recursive NoNode key sz = Inr (NoNode, sz)"
| "delete_recursive (AVLNode v l r h) key sz =
     (if key < v then
        (case delete_recursive l key sz of
           Inl e \<Rightarrow> Inl e
         | Inr (l', sz') \<Rightarrow>
             (case rebalance (AVLNode v l' r (1 + max (get_height l') (get_height r))) of
                Inl e \<Rightarrow> Inl e
              | Inr n \<Rightarrow> Inr (n, sz')))
      else if key > v then
        (case delete_recursive r key sz of
           Inl e \<Rightarrow> Inl e
         | Inr (r', sz') \<Rightarrow>
             (case rebalance (AVLNode v l r' (1 + max (get_height l) (get_height r'))) of
                Inl e \<Rightarrow> Inl e
              | Inr n \<Rightarrow> Inr (n, sz')))
      else if l = NoNode then Inr (r, sz - 1)
      else if r = NoNode then Inr (l, sz - 1)
      else
        (case get_min_node r of
           Inl e \<Rightarrow> Inl e
         | Inr NoNode \<Rightarrow> Inl AttributeError
         | Inr (AVLNode successor_val sl sr sh) \<Rightarrow>
             (case delete_recursive r successor_val sz of
                Inl e \<Rightarrow> Inl e
              | Inr (r', sz') \<Rightarrow>
                  (case rebalance
                          (AVLNode successor_val l r' (1 + max (get_height l) (get_height r'))) of
                     Inl e \<Rightarrow> Inl e
                   | Inr n \<Rightarrow> Inr (n, sz')))))"

definition delete :: "'a::linorder avl_tree \<Rightarrow> 'a pykey \<Rightarrow> (error + bool) \<times> 'a avl_tree" where
  "delete self key =
     (case validate_key key of
        Inl e \<Rightarrow> (Inl e, self)
      | Inr k \<Rightarrow>
          (let original_size = size_avl self in
           case delete_recursive (root self) k (size_avl self) of
             Inl e \<Rightarrow> (Inl e, self)
           | Inr (n, sz) \<Rightarrow> (Inr (sz < original_size), self\<lparr>root := n, size_avl := sz\<rparr>)))"

subsection \<open>Search\<close>

fun search_unlocked :: "'a::linorder avl_node \<Rightarrow> 'a \<Rightarrow> 'a avl_node" where
  "search_unlocked NoNode key = NoNode"
| "search_unlocked (AVLNode v l r h) key =
     (if key = v then AVLNode v l r h
      else if key < v then search_unlocked l key
      else search_unlocked r key)"

definition search ::
  "'a::linorder avl_tree \<Rightarrow> 'a pykey \<Rightarrow> (error + 'a avl_node) \<times> 'a avl_tree" where
  "search self key =
     (case validate_key key of
        Inl e \<Rightarrow> (Inl e, self)
      | Inr k \<Rightarrow> (Inr (search_unlocked (root self) k), self))"

subsection \<open>Traversal, export, import\<close>

text \<open>\<^verbatim>\<open>_in_order_traversal(node, output)\<close> appends to \<^verbatim>\<open>output\<close>; the model returns the
  extended list.\<close>

fun in_order_traversal_rec :: "'a avl_node \<Rightarrow> 'a list \<Rightarrow> 'a list" where
  "in_order_traversal_rec NoNode output = output"
| "in_order_traversal_rec (AVLNode v l r h) output =
     in_order_traversal_rec r (in_order_traversal_rec l output @ [v])"

definition in_order_traversal :: "'a avl_tree \<Rightarrow> 'a list" where
  "in_order_traversal self = in_order_traversal_rec (root self) []"

definition to_list :: "'a avl_tree \<Rightarrow> 'a list" where
  "to_list self = in_order_traversal self"

definition clear :: "'a avl_tree \<Rightarrow> 'a avl_tree" where
  "clear self = self\<lparr>root := NoNode, size_avl := 0\<rparr>"

text \<open>The loop \<^verbatim>\<open>for key in keys: self.insert(key)\<close> of \<^verbatim>\<open>from_list\<close>: the results are
  dropped, an exception ends the loop and leaves the keys inserted so far.\<close>

fun insert_each ::
  "'a::linorder avl_tree \<Rightarrow> 'a pykey list \<Rightarrow> (error + unit) \<times> 'a avl_tree" where
  "insert_each self [] = (Inr (), self)"
| "insert_each self (key # keys) =
     (case insert_avl self key of
        (Inl e, self') \<Rightarrow> (Inl e, self')
      | (Inr b, self') \<Rightarrow> insert_each self' keys)"

definition from_list ::
  "'a::linorder avl_tree \<Rightarrow> 'a pykey list \<Rightarrow> (error + unit) \<times> 'a avl_tree" where
  "from_list self keys = insert_each (self\<lparr>root := NoNode, size_avl := 0\<rparr>) keys"

text \<open>The spec's wording of \<^verbatim>\<open>from_list\<close>: \<^verbatim>\<open>clear()\<close>, then \<^verbatim>\<open>insert(k)\<close> for each key in order.\<close>

definition clear_then_insert ::
  "'a::linorder avl_tree \<Rightarrow> 'a pykey list \<Rightarrow> (error + unit) \<times> 'a avl_tree" where
  "clear_then_insert self keys = insert_each (clear self) keys"

text \<open>A caller that inserts the keys of a list one after the other and keeps the results,
  as the demonstration at the end of the module does.\<close>

fun insert_all ::
  "'a::linorder avl_tree \<Rightarrow> 'a pykey list \<Rightarrow> (error + bool list) \<times> 'a avl_tree" where
  "insert_all self [] = (Inr [], self)"
| "insert_all self (key # keys) =
     (case insert_avl self key of
        (Inl e, self') \<Rightarrow> (Inl e, self')
      | (Inr b, self') \<Rightarrow>
          (case insert_all self' keys of
             (Inl e, self'') \<Rightarrow> (Inl e, self'')
           | (Inr bs, self'') \<Rightarrow> (Inr (b # bs), self'')))"

subsection \<open>The validator\<close>

text \<open>\<^verbatim>\<open>is_valid_avl\<close> starts \<^verbatim>\<open>_validate_avl\<close> with the bounds \<^verbatim>\<open>float('-inf')\<close> and
  \<^verbatim>\<open>float('inf')\<close>; further down a bound is a key of the tree. What \<^verbatim>\<open>node.val <= min_val\<close>
  does when \<^verbatim>\<open>min_val\<close> is one of the two floats depends on the key, whose type the module
  does not fix: a tuple or a string is not ordered against a float and the comparison raises
  \<^verbatim>\<open>TypeError\<close>; a number is, and it is \<^verbatim>\<open>float('-inf')\<close> itself, \<^verbatim>\<open>float('inf')\<close> itself, or
  strictly between the two. This is the parameter \<open>float_order\<close>, with \<open>None\<close> for a key
  that Python does not order against a float.\<close>

datatype float_position =
    IsNegInf
  | Between
  | IsPosInf

datatype 'a bound =
    FloatNegInf
  | FloatPosInf
  | KeyBound 'a

fun val_le ::
  "('a::linorder \<Rightarrow> float_position option) \<Rightarrow> 'a \<Rightarrow> 'a bound \<Rightarrow> error + bool" where
  "val_le float_order v (KeyBound b) = Inr (v \<le> b)"
| "val_le float_order v FloatNegInf =
     (case float_order v of None \<Rightarrow> Inl TypeError | Some p \<Rightarrow> Inr (p = IsNegInf))"
| "val_le float_order v FloatPosInf =
     (case float_order v of None \<Rightarrow> Inl TypeError | Some p \<Rightarrow> Inr True)"

fun val_ge ::
  "('a::linorder \<Rightarrow> float_position option) \<Rightarrow> 'a \<Rightarrow> 'a bound \<Rightarrow> error + bool" where
  "val_ge float_order v (KeyBound b) = Inr (v \<ge> b)"
| "val_ge float_order v FloatNegInf =
     (case float_order v of None \<Rightarrow> Inl TypeError | Some p \<Rightarrow> Inr True)"
| "val_ge float_order v FloatPosInf =
     (case float_order v of None \<Rightarrow> Inl TypeError | Some p \<Rightarrow> Inr (p = IsPosInf))"

fun validate_avl ::
  "('a::linorder \<Rightarrow> float_position option) \<Rightarrow> 'a avl_node \<Rightarrow> 'a bound \<Rightarrow> 'a bound \<Rightarrow> error + bool" where
  "validate_avl float_order NoNode min_val max_val = Inr True"
| "validate_avl float_order (AVLNode v l r h) min_val max_val =
     (case val_le float_order v min_val of
        Inl e \<Rightarrow> Inl e
      | Inr True \<Rightarrow> Inr False
      | Inr False \<Rightarrow>
          (case val_ge float_order v max_val of
             Inl e \<Rightarrow> Inl e
           | Inr True \<Rightarrow> Inr False
           | Inr False \<Rightarrow>
               (let balance = get_balance_factor (AVLNode v l r h) in
                if abs balance > 1 then Inr False
                else
                  (let expected_height = 1 + max (get_height l) (get_height r) in
                   if h \<noteq> expected_height then Inr False
                   else
                     (case validate_avl float_order l min_val (KeyBound v) of
                        Inl e \<Rightarrow> Inl e
                      | Inr False \<Rightarrow> Inr False
                      | Inr True \<Rightarrow> validate_avl float_order r (KeyBound v) max_val)))))"

definition is_valid_avl :: "('a::linorder \<Rightarrow> float_position option) \<Rightarrow> 'a avl_tree \<Rightarrow> error + bool" where
  "is_valid_avl float_order self =
     validate_avl float_order (root self) FloatNegInf FloatPosInf"

section \<open>Specification-level notions\<close>

text \<open>The keys of a tree, its nodes from left to right, the search-tree order, and the
  condition on the cached heights (each is the height of its subtree, and the two children
  of a node differ by at most one).\<close>

fun keys :: "'a avl_node \<Rightarrow> 'a set" where
  "keys NoNode = {}"
| "keys (AVLNode v l r h) = insert v (keys l \<union> keys r)"

fun inorder :: "'a avl_node \<Rightarrow> 'a list" where
  "inorder NoNode = []"
| "inorder (AVLNode v l r h) = inorder l @ v # inorder r"

fun bst :: "'a::linorder avl_node \<Rightarrow> bool" where
  "bst NoNode = True"
| "bst (AVLNode v l r h) =
     ((\<forall>x\<in>keys l. x < v) \<and> (\<forall>x\<in>keys r. v < x) \<and> bst l \<and> bst r)"

fun balanced :: "'a avl_node \<Rightarrow> bool" where
  "balanced NoNode = True"
| "balanced (AVLNode v l r h) =
     (h = 1 + max (get_height l) (get_height r) \<and>
      \<bar>get_height l - get_height r\<bar> \<le> 1 \<and> balanced l \<and> balanced r)"

fun nodes :: "'a avl_node \<Rightarrow> 'a avl_node set" where
  "nodes NoNode = {}"
| "nodes (AVLNode v l r h) = insert (AVLNode v l r h) (nodes l \<union> nodes r)"

text \<open>A valid tree: the search-tree order and the height conditions hold at every node, and
  \<^verbatim>\<open>_size\<close> is the number of nodes.\<close>

definition valid :: "'a::linorder avl_tree \<Rightarrow> bool" where
  "valid self \<longleftrightarrow>
     bst (root self) \<and> balanced (root self) \<and> size_avl self = int (length (inorder (root self)))"

text \<open>The capacity test of \<^verbatim>\<open>insert\<close>:
  \<^verbatim>\<open>self._max_size is not None and self._size >= self._max_size\<close>.\<close>

definition at_capacity :: "'a avl_tree \<Rightarrow> bool" where
  "at_capacity self = (case max_size self of None \<Rightarrow> False | Some m \<Rightarrow> size_avl self \<ge> m)"

text \<open>The trees a caller can build: a new tree, then calls of \<^verbatim>\<open>insert\<close> and \<^verbatim>\<open>delete\<close> that
  return.\<close>

inductive reachable :: "'a::linorder avl_tree \<Rightarrow> bool" where
  fresh: "reachable (init ms md)"
| after_insert: "reachable self \<Longrightarrow> insert_avl self key = (Inr b, self') \<Longrightarrow> reachable self'"
| after_delete: "reachable self \<Longrightarrow> delete self key = (Inr b, self') \<Longrightarrow> reachable self'"

text \<open>The tree of the module's demonstration: 10, 20, 30, 40, 50, 25 inserted in this order
  into \<^verbatim>\<open>AVLTree()\<close> (see \<open>demo_tree_built\<close>).\<close>

definition demo_tree :: "int avl_tree" where
  "demo_tree =
     \<lparr>root = AVLNode 30 (AVLNode 20 (AVLNode 10 NoNode NoNode 1) (AVLNode 25 NoNode NoNode 1) 2)
               (AVLNode 40 NoNode (AVLNode 50 NoNode NoNode 1) 2) 3,
      size_avl = 6, max_size = None, max_depth = 1000\<rparr>"

text \<open>The values of \<^verbatim>\<open>depth\<close> with which \<^verbatim>\<open>_insert_recursive\<close> is entered on its way down,
  from the first call on: the walk that \<open>insert_recursive\<close> makes, without its tests.\<close>

fun visited_depths :: "'a::linorder avl_node \<Rightarrow> 'a \<Rightarrow> int \<Rightarrow> int list" where
  "visited_depths NoNode key depth = [depth]"
| "visited_depths (AVLNode v l r h) key depth =
     depth # (if key < v then visited_depths l key (depth + 1)
              else if key > v then visited_depths r key (depth + 1)
              else [])"

text \<open>The shape that ascending insertions produce: along the right spine every left
  subtree is complete (both children of every node have the same height), and each right
  subtree is as high as the left one or higher by one.\<close>

fun complete :: "'a avl_node \<Rightarrow> bool" where
  "complete NoNode = True"
| "complete (AVLNode v l r h) =
     (complete l \<and> complete r \<and> get_height l = get_height r \<and> h = 1 + get_height l)"

fun packed :: "'a avl_node \<Rightarrow> bool" where
  "packed NoNode = True"
| "packed (AVLNode v l r h) =
     (complete l \<and> packed r \<and>
      (get_height r = get_height l \<or> get_height r = get_height l + 1) \<and>
      h = 1 + get_height r)"

text \<open>The order of a number strictly between the two floats against a bound of the
  validator: \<^verbatim>\<open>float('-inf')\<close> is below it and \<^verbatim>\<open>float('inf')\<close> above.\<close>

fun above :: "'a::linorder bound \<Rightarrow> 'a \<Rightarrow> bool" where
  "above FloatNegInf x = True"
| "above FloatPosInf x = False"
| "above (KeyBound b) x = (b < x)"

fun below :: "'a::linorder bound \<Rightarrow> 'a \<Rightarrow> bool" where
  "below FloatNegInf x = False"
| "below FloatPosInf x = True"
| "below (KeyBound b) x = (x < b)"

section \<open>Rebalancing, insertion and deletion on well-formed subtrees\<close>

lemma set_inorder: "set (inorder t) = keys t"
  by (induction t) auto

lemma bst_iff_sorted: "bst t \<longleftrightarrow> sorted_wrt (<) (inorder t)"
  by (induction t) (fastforce simp: sorted_wrt_append set_inorder)+

lemma get_height_nonneg: "balanced t \<Longrightarrow> 0 \<le> get_height t"
  by (induction t) auto

lemma rebalance_unchanged:
  "\<bar>get_height l - get_height r\<bar> \<le> 1 \<Longrightarrow> rebalance (AVLNode v l r h) = Inr (AVLNode v l r h)"
  by (auto simp: Let_def)

lemma rebalance_left_heavy:
  assumes "balanced l" "balanced r" "get_height l = get_height r + 2"
  shows "\<exists>n. rebalance (AVLNode v l r h) = Inr n \<and> balanced n \<and>
             inorder n = inorder l @ v # inorder r \<and>
             (get_height n = get_height r + 2 \<or> get_height n = get_height r + 3) \<and>
             (get_balance_factor l \<noteq> 0 \<longrightarrow> get_height n = get_height r + 2)"
proof -
  from assms get_height_nonneg[of r] obtain lv ll lr lh where l: "l = AVLNode lv ll lr lh"
    by (cases l) auto
  show ?thesis
  proof (cases "get_height ll \<ge> get_height lr")
    case True
    with assms l show ?thesis by (auto simp: Let_def)
  next
    case False
    with assms l get_height_nonneg[of ll] obtain mv ml mr mh where m: "lr = AVLNode mv ml mr mh"
      by (cases lr) auto
    with False assms l show ?thesis by (auto simp: Let_def)
  qed
qed

lemma rebalance_right_heavy:
  assumes "balanced l" "balanced r" "get_height r = get_height l + 2"
  shows "\<exists>n. rebalance (AVLNode v l r h) = Inr n \<and> balanced n \<and>
             inorder n = inorder l @ v # inorder r \<and>
             (get_height n = get_height l + 2 \<or> get_height n = get_height l + 3) \<and>
             (get_balance_factor r \<noteq> 0 \<longrightarrow> get_height n = get_height l + 2)"
proof -
  from assms get_height_nonneg[of l] obtain rv rl rr rh where r: "r = AVLNode rv rl rr rh"
    by (cases r) auto
  show ?thesis
  proof (cases "get_height rl \<le> get_height rr")
    case True
    with assms r show ?thesis by (auto simp: Let_def)
  next
    case False
    with assms r get_height_nonneg[of rr] obtain mv ml mr mh where m: "rl = AVLNode mv ml mr mh"
      by (cases rl) auto
    with False assms r show ?thesis by (auto simp: Let_def)
  qed
qed


declare rebalance.simps [simp del]

lemma rebalance_ok:
  assumes "balanced l" "balanced r" "\<bar>get_height l - get_height r\<bar> \<le> 2"
  shows "\<exists>n. rebalance (AVLNode v l r (1 + max (get_height l) (get_height r))) = Inr n \<and>
             balanced n \<and> inorder n = inorder l @ v # inorder r \<and>
             (get_height n = 1 + max (get_height l) (get_height r) \<or>
              get_height n = max (get_height l) (get_height r) \<and>
                \<bar>get_height l - get_height r\<bar> = 2) \<and>
             (\<bar>get_height l - get_height r\<bar> \<le> 1 \<longrightarrow>
                n = AVLNode v l r (1 + max (get_height l) (get_height r)))"
proof -
  consider (even) "\<bar>get_height l - get_height r\<bar> \<le> 1"
    | (lheavy) "get_height l = get_height r + 2"
    | (rheavy) "get_height r = get_height l + 2"
    using assms(3) by linarith
  then show ?thesis
  proof cases
    case even
    with rebalance_unchanged[OF even, of v] assms show ?thesis
      by simp
  next
    case lheavy
    from rebalance_left_heavy[OF assms(1,2) lheavy] lheavy show ?thesis
      by fastforce
  next
    case rheavy
    from rebalance_right_heavy[OF assms(1,2) rheavy] rheavy show ?thesis
      by fastforce
  qed
qed

lemma bst_rebalanced:
  assumes "inorder n = inorder l @ v # inorder r"
  shows "bst n \<longleftrightarrow> bst (AVLNode v l r h)" and "keys n = keys (AVLNode v l r h)"
proof -
  have "inorder n = inorder (AVLNode v l r h)" using assms by simp
  then show "bst n \<longleftrightarrow> bst (AVLNode v l r h)" by (simp only: bst_iff_sorted)
  from assms have "set (inorder n) = set (inorder (AVLNode v l r h))" by simp
  then show "keys n = keys (AVLNode v l r h)" by (simp only: set_inorder)
qed

lemma insert_recursive_ok:
  assumes "bst t" "balanced t" "depth + get_height t \<le> md"
  shows "\<exists>t'. insert_recursive md t k depth sz = Inr (t', if k \<in> keys t then sz else sz + 1) \<and>
              bst t' \<and> balanced t' \<and> keys t' = insert k (keys t) \<and>
              (get_height t' = get_height t \<or> get_height t' = get_height t + 1) \<and>
              (k \<in> keys t \<longrightarrow> t' = t)"
  using assms
proof (induction t arbitrary: depth)
  case NoNode
  then show ?case by simp
next
  case (AVLNode v l r h)
  from AVLNode.prems have bl: "balanced l" and br: "balanced r"
    and h: "h = 1 + max (get_height l) (get_height r)"
    and bal: "\<bar>get_height l - get_height r\<bar> \<le> 1"
    and sl: "bst l" and sr: "bst r"
    and lt: "\<forall>x\<in>keys l. x < v" and gt: "\<forall>x\<in>keys r. v < x"
    by auto
  from AVLNode.prems(3) h have d: "\<not> depth > md"
    and dl: "(depth + 1) + get_height l \<le> md" and dr: "(depth + 1) + get_height r \<le> md"
    using get_height_nonneg[OF bl] get_height_nonneg[OF br] by auto
  consider (less) "k < v" | (greater) "v < k" | (equal) "k = v"
    using less_linear by blast
  then show ?case
  proof cases
    case less
    from AVLNode.IH(1)[OF sl bl dl] obtain l' where
      rec: "insert_recursive md l k (depth + 1) sz = Inr (l', if k \<in> keys l then sz else sz + 1)"
      and l': "bst l'" "balanced l'" "keys l' = insert k (keys l)"
      and hl': "get_height l' = get_height l \<or> get_height l' = get_height l + 1"
      and same: "k \<in> keys l \<longrightarrow> l' = l"
      by blast
    from hl' bal have "\<bar>get_height l' - get_height r\<bar> \<le> 2" by linarith
    from rebalance_ok[OF l'(2) br this, of v] obtain n where
      n: "rebalance (AVLNode v l' r (1 + max (get_height l') (get_height r))) = Inr n"
      and bn: "balanced n" and io: "inorder n = inorder l' @ v # inorder r"
      and hn: "get_height n = 1 + max (get_height l') (get_height r) \<or>
               get_height n = max (get_height l') (get_height r) \<and>
                 \<bar>get_height l' - get_height r\<bar> = 2"
      and un: "\<bar>get_height l' - get_height r\<bar> \<le> 1 \<longrightarrow>
                 n = AVLNode v l' r (1 + max (get_height l') (get_height r))"
      by blast
    have mem: "k \<in> keys (AVLNode v l r h) \<longleftrightarrow> k \<in> keys l"
      using less gt by auto
    have res: "insert_recursive md (AVLNode v l r h) k depth sz =
                 Inr (n, if k \<in> keys (AVLNode v l r h) then sz else sz + 1)"
      using d less rec n mem by simp
    have "bst (AVLNode v l' r h)" using l' sr lt gt less by auto
    then have bn': "bst n" using bst_rebalanced(1)[OF io] by blast
    have kn: "keys n = insert k (keys (AVLNode v l r h))"
      using bst_rebalanced(2)[OF io, of h] l'(3) by auto
    have hh: "get_height n = h \<or> get_height n = h + 1"
      using hn hl' bal h by auto
    have "k \<in> keys (AVLNode v l r h) \<longrightarrow> n = AVLNode v l r h"
      using mem same un bal h by auto
    with res bn bn' kn hh show ?thesis by auto
  next
    case greater
    from AVLNode.IH(2)[OF sr br dr] obtain r' where
      rec: "insert_recursive md r k (depth + 1) sz = Inr (r', if k \<in> keys r then sz else sz + 1)"
      and r': "bst r'" "balanced r'" "keys r' = insert k (keys r)"
      and hr': "get_height r' = get_height r \<or> get_height r' = get_height r + 1"
      and same: "k \<in> keys r \<longrightarrow> r' = r"
      by blast
    from hr' bal have "\<bar>get_height l - get_height r'\<bar> \<le> 2" by linarith
    from rebalance_ok[OF bl r'(2) this, of v] obtain n where
      n: "rebalance (AVLNode v l r' (1 + max (get_height l) (get_height r'))) = Inr n"
      and bn: "balanced n" and io: "inorder n = inorder l @ v # inorder r'"
      and hn: "get_height n = 1 + max (get_height l) (get_height r') \<or>
               get_height n = max (get_height l) (get_height r') \<and>
                 \<bar>get_height l - get_height r'\<bar> = 2"
      and un: "\<bar>get_height l - get_height r'\<bar> \<le> 1 \<longrightarrow>
                 n = AVLNode v l r' (1 + max (get_height l) (get_height r'))"
      by blast
    have mem: "k \<in> keys (AVLNode v l r h) \<longleftrightarrow> k \<in> keys r"
      using greater lt by auto
    have res: "insert_recursive md (AVLNode v l r h) k depth sz =
                 Inr (n, if k \<in> keys (AVLNode v l r h) then sz else sz + 1)"
      using d greater rec n mem by auto
    have "bst (AVLNode v l r' h)" using r' sl lt gt greater by auto
    then have bn': "bst n" using bst_rebalanced(1)[OF io] by blast
    have kn: "keys n = insert k (keys (AVLNode v l r h))"
      using bst_rebalanced(2)[OF io, of h] r'(3) by auto
    have hh: "get_height n = h \<or> get_height n = h + 1"
      using hn hr' bal h by auto
    have "k \<in> keys (AVLNode v l r h) \<longrightarrow> n = AVLNode v l r h"
      using mem same un bal h by auto
    with res bn bn' kn hh show ?thesis by auto
  next
    case equal
    with d AVLNode.prems show ?thesis by auto
  qed
qed

lemma get_min_node_ok:
  assumes "bst t" "t \<noteq> NoNode"
  shows "\<exists>sv sl sr sh. get_min_node t = Inr (AVLNode sv sl sr sh) \<and> sv \<in> keys t \<and>
                        (\<forall>x\<in>keys t. sv \<le> x)"
  using assms
proof (induction t)
  case NoNode
  then show ?case by simp
next
  case (AVLNode v l r h)
  show ?case
  proof (cases "l = NoNode")
    case True
    with AVLNode.prems show ?thesis by auto
  next
    case False
    with AVLNode.IH(1) AVLNode.prems obtain sv sl sr sh where
      "get_min_node l = Inr (AVLNode sv sl sr sh)" "sv \<in> keys l" "\<forall>x\<in>keys l. sv \<le> x"
      by auto
    with False AVLNode.prems show ?thesis by fastforce
  qed
qed


lemma delete_recursive_ok:
  assumes "bst t" "balanced t"
  shows "\<exists>t'. delete_recursive t k sz = Inr (t', if k \<in> keys t then sz - 1 else sz) \<and>
              bst t' \<and> balanced t' \<and> keys t' = keys t - {k} \<and>
              (get_height t' = get_height t \<or> get_height t' = get_height t - 1) \<and>
              (k \<notin> keys t \<longrightarrow> t' = t)"
  using assms
proof (induction t arbitrary: k)
  case NoNode
  then show ?case by simp
next
  case (AVLNode v l r h)
  from AVLNode.prems have bl: "balanced l" and br: "balanced r"
    and h: "h = 1 + max (get_height l) (get_height r)"
    and bal: "\<bar>get_height l - get_height r\<bar> \<le> 1"
    and sl: "bst l" and sr: "bst r"
    and lt: "\<forall>x\<in>keys l. x < v" and gt: "\<forall>x\<in>keys r. v < x"
    by auto
  have vl: "v \<notin> keys l" and vr: "v \<notin> keys r" using lt gt by auto
  consider (less) "k < v" | (greater) "v < k" | (equal) "k = v"
    using less_linear by blast
  then show ?case
  proof cases
    case less
    from AVLNode.IH(1)[OF sl bl, of k] obtain l' where
      rec: "delete_recursive l k sz = Inr (l', if k \<in> keys l then sz - 1 else sz)"
      and l': "bst l'" "balanced l'" "keys l' = keys l - {k}"
      and hl': "get_height l' = get_height l \<or> get_height l' = get_height l - 1"
      and same: "k \<notin> keys l \<longrightarrow> l' = l"
      by blast
    from hl' bal have "\<bar>get_height l' - get_height r\<bar> \<le> 2" by linarith
    from rebalance_ok[OF l'(2) br this, of v] obtain n where
      n: "rebalance (AVLNode v l' r (1 + max (get_height l') (get_height r))) = Inr n"
      and bn: "balanced n" and io: "inorder n = inorder l' @ v # inorder r"
      and hn: "get_height n = 1 + max (get_height l') (get_height r) \<or>
               get_height n = max (get_height l') (get_height r) \<and>
                 \<bar>get_height l' - get_height r\<bar> = 2"
      and un: "\<bar>get_height l' - get_height r\<bar> \<le> 1 \<longrightarrow>
                 n = AVLNode v l' r (1 + max (get_height l') (get_height r))"
      by blast
    have mem: "k \<in> keys (AVLNode v l r h) \<longleftrightarrow> k \<in> keys l"
      using less gt by auto
    have res: "delete_recursive (AVLNode v l r h) k sz =
                 Inr (n, if k \<in> keys (AVLNode v l r h) then sz - 1 else sz)"
      using less rec n mem by simp
    have "bst (AVLNode v l' r h)" using l' sr lt gt by auto
    then have bn': "bst n" using bst_rebalanced(1)[OF io] by blast
    have kn: "keys n = keys (AVLNode v l r h) - {k}"
      using bst_rebalanced(2)[OF io, of h] l'(3) less gt by auto
    have hh: "get_height n = h \<or> get_height n = h - 1"
      using hn hl' bal h by auto
    have "k \<notin> keys (AVLNode v l r h) \<longrightarrow> n = AVLNode v l r h"
      using mem same un bal h by auto
    with res bn bn' kn hh show ?thesis by auto
  next
    case greater
    from AVLNode.IH(2)[OF sr br, of k] obtain r' where
      rec: "delete_recursive r k sz = Inr (r', if k \<in> keys r then sz - 1 else sz)"
      and r': "bst r'" "balanced r'" "keys r' = keys r - {k}"
      and hr': "get_height r' = get_height r \<or> get_height r' = get_height r - 1"
      and same: "k \<notin> keys r \<longrightarrow> r' = r"
      by blast
    from hr' bal have "\<bar>get_height l - get_height r'\<bar> \<le> 2" by linarith
    from rebalance_ok[OF bl r'(2) this, of v] obtain n where
      n: "rebalance (AVLNode v l r' (1 + max (get_height l) (get_height r'))) = Inr n"
      and bn: "balanced n" and io: "inorder n = inorder l @ v # inorder r'"
      and hn: "get_height n = 1 + max (get_height l) (get_height r') \<or>
               get_height n = max (get_height l) (get_height r') \<and>
                 \<bar>get_height l - get_height r'\<bar> = 2"
      and un: "\<bar>get_height l - get_height r'\<bar> \<le> 1 \<longrightarrow>
                 n = AVLNode v l r' (1 + max (get_height l) (get_height r'))"
      by blast
    have mem: "k \<in> keys (AVLNode v l r h) \<longleftrightarrow> k \<in> keys r"
      using greater lt by auto
    have res: "delete_recursive (AVLNode v l r h) k sz =
                 Inr (n, if k \<in> keys (AVLNode v l r h) then sz - 1 else sz)"
      using greater rec n mem by auto
    have "bst (AVLNode v l r' h)" using r' sl lt gt by auto
    then have bn': "bst n" using bst_rebalanced(1)[OF io] by blast
    have kn: "keys n = keys (AVLNode v l r h) - {k}"
      using bst_rebalanced(2)[OF io, of h] r'(3) greater lt by auto
    have hh: "get_height n = h \<or> get_height n = h - 1"
      using hn hr' bal h by auto
    have "k \<notin> keys (AVLNode v l r h) \<longrightarrow> n = AVLNode v l r h"
      using mem same un bal h by auto
    with res bn bn' kn hh show ?thesis by auto
  next
    case equal
    show ?thesis
    proof (cases "l = NoNode")
      case True
      with equal sr br h vr get_height_nonneg[OF br] show ?thesis by auto
    next
      case lne: False
      show ?thesis
      proof (cases "r = NoNode")
        case True
        with equal lne sl bl h vl get_height_nonneg[OF bl] show ?thesis by auto
      next
        case rne: False
        from get_min_node_ok[OF sr rne] obtain sv sl' sr' sh where
          gm: "get_min_node r = Inr (AVLNode sv sl' sr' sh)"
          and svr: "sv \<in> keys r" and svmin: "\<forall>x\<in>keys r. sv \<le> x"
          by blast
        from AVLNode.IH(2)[OF sr br, of sv] svr obtain r' where
          rec: "delete_recursive r sv sz = Inr (r', sz - 1)"
          and r': "bst r'" "balanced r'" "keys r' = keys r - {sv}"
          and hr': "get_height r' = get_height r \<or> get_height r' = get_height r - 1"
          by auto
        from hr' bal have "\<bar>get_height l - get_height r'\<bar> \<le> 2" by linarith
        from rebalance_ok[OF bl r'(2) this, of sv] obtain n where
          n: "rebalance (AVLNode sv l r' (1 + max (get_height l) (get_height r'))) = Inr n"
          and bn: "balanced n" and io: "inorder n = inorder l @ sv # inorder r'"
          and hn: "get_height n = 1 + max (get_height l) (get_height r') \<or>
                   get_height n = max (get_height l) (get_height r') \<and>
                     \<bar>get_height l - get_height r'\<bar> = 2"
          by blast
        have res: "delete_recursive (AVLNode v l r h) k sz =
                     Inr (n, if k \<in> keys (AVLNode v l r h) then sz - 1 else sz)"
          using equal lne rne gm rec n by simp
        have "\<forall>x\<in>keys l. x < sv" using lt gt svr by fastforce
        moreover have "\<forall>x\<in>keys r'. sv < x" using r'(3) svmin by fastforce
        ultimately have "bst (AVLNode sv l r' h)" using sl r'(1) by simp
        then have bn': "bst n" using bst_rebalanced(1)[OF io] by blast
        have kn: "keys n = keys (AVLNode v l r h) - {k}"
          using bst_rebalanced(2)[OF io, of h] r'(3) svr equal vl vr by auto
        have hh: "get_height n = h \<or> get_height n = h - 1"
          using hn hr' bal h by auto
        from res bn bn' kn hh equal show ?thesis by auto
      qed
    qed
  qed
qed

section \<open>The public methods on valid trees\<close>

lemma in_order_traversal_rec_eq: "in_order_traversal_rec t out = out @ inorder t"
  by (induction t arbitrary: out) auto

lemma in_order_traversal_eq: "in_order_traversal self = inorder (root self)"
  by (simp add: in_order_traversal_def in_order_traversal_rec_eq)

lemma bst_distinct: "bst t \<Longrightarrow> distinct (inorder t)"
  using bst_iff_sorted strict_sorted_iff by blast

lemma bst_sorted: "bst t \<Longrightarrow> sorted (inorder t)"
  using bst_iff_sorted strict_sorted_iff by blast

lemma bst_length: "bst t \<Longrightarrow> length (inorder t) = card (keys t)"
  using bst_distinct distinct_card set_inorder by metis

lemma bst_inorder: "bst t \<Longrightarrow> inorder t = sorted_list_of_set (keys t)"
  using bst_distinct bst_sorted set_inorder
  by (metis sorted_list_of_set.idem_if_sorted_distinct)

lemma finite_keys: "finite (keys t)"
  by (induction t) auto

lemma insert_avl_invalid:
  "insert_avl self PyNone = (Inl AVLTreeKeyError, self)"
  "insert_avl self PyUnordered = (Inl AVLTreeKeyError, self)"
  by (simp_all add: insert_avl_def)

lemma insert_avl_full:
  "at_capacity self \<Longrightarrow> insert_avl self (Key k) = (Inl AVLTreeCapacityError, self)"
  by (simp add: insert_avl_def at_capacity_def)

lemma insert_avl_deep:
  "\<not> at_capacity self \<Longrightarrow> get_height (root self) \<ge> max_depth self \<Longrightarrow>
   insert_avl self (Key k) = (Inl AVLTreeDepthError, self)"
  by (simp add: insert_avl_def at_capacity_def)

lemma insert_avl_ok:
  assumes "valid self" "\<not> at_capacity self" "get_height (root self) < max_depth self"
  shows "\<exists>self'. insert_avl self (Key k) = (Inr (k \<notin> keys (root self)), self') \<and>
           valid self' \<and> keys (root self') = insert k (keys (root self)) \<and>
           max_size self' = max_size self \<and> max_depth self' = max_depth self \<and>
           size_avl self' = (if k \<in> keys (root self) then size_avl self else size_avl self + 1) \<and>
           (get_height (root self') = get_height (root self) \<or>
            get_height (root self') = get_height (root self) + 1) \<and>
           (k \<in> keys (root self) \<longrightarrow> self' = self)"
proof -
  from assms(1) have b: "bst (root self)" and bal: "balanced (root self)"
    and sz: "size_avl self = int (length (inorder (root self)))"
    by (auto simp: valid_def)
  from assms(3) have "0 + get_height (root self) \<le> max_depth self" by simp
  from insert_recursive_ok[OF b bal this, of k "size_avl self"] obtain t' where
    rec: "insert_recursive (max_depth self) (root self) k 0 (size_avl self) =
            Inr (t', if k \<in> keys (root self) then size_avl self else size_avl self + 1)"
    and t': "bst t'" "balanced t'" "keys t' = insert k (keys (root self))"
    and ht: "get_height t' = get_height (root self) \<or> get_height t' = get_height (root self) + 1"
    and same: "k \<in> keys (root self) \<longrightarrow> t' = root self"
    by blast
  let ?sz = "if k \<in> keys (root self) then size_avl self else size_avl self + 1"
  let ?s = "self\<lparr>root := t', size_avl := ?sz\<rparr>"
  have res: "insert_avl self (Key k) = (Inr (k \<notin> keys (root self)), ?s)"
    using assms(2,3) rec by (simp add: insert_avl_def at_capacity_def)
  have "length (inorder t') = (if k \<in> keys (root self) then length (inorder (root self))
                               else length (inorder (root self)) + 1)"
    using bst_length[OF t'(1)] bst_length[OF b] t'(3) finite_keys[of "root self"]
    by (simp add: insert_absorb)
  with sz t' have v: "valid ?s" by (simp add: valid_def)
  have "k \<in> keys (root self) \<longrightarrow> ?s = self" using same by simp
  with res v t'(3) ht show ?thesis by auto
qed

lemma insert_avl_returns:
  assumes "insert_avl self key = (Inr b, self')"
  shows "\<exists>k. key = Key k \<and> \<not> at_capacity self \<and> get_height (root self) < max_depth self"
proof -
  from assms obtain k where k: "key = Key k"
    by (cases key) (auto simp: insert_avl_def)
  from assms k have "\<not> at_capacity self"
    using insert_avl_full[of self k] by auto
  moreover from this assms k have "get_height (root self) < max_depth self"
    using insert_avl_deep[of self k] by fastforce
  ultimately show ?thesis using k by blast
qed

lemma delete_invalid:
  "delete self PyNone = (Inl AVLTreeKeyError, self)"
  "delete self PyUnordered = (Inl AVLTreeKeyError, self)"
  by (simp_all add: delete_def)

lemma delete_ok:
  assumes "valid self"
  shows "\<exists>self'. delete self (Key k) = (Inr (k \<in> keys (root self)), self') \<and>
           valid self' \<and> keys (root self') = keys (root self) - {k} \<and>
           max_size self' = max_size self \<and> max_depth self' = max_depth self \<and>
           size_avl self' = (if k \<in> keys (root self) then size_avl self - 1 else size_avl self) \<and>
           (get_height (root self') = get_height (root self) \<or>
            get_height (root self') = get_height (root self) - 1) \<and>
           (k \<notin> keys (root self) \<longrightarrow> self' = self)"
proof -
  from assms(1) have b: "bst (root self)" and bal: "balanced (root self)"
    and sz: "size_avl self = int (length (inorder (root self)))"
    by (auto simp: valid_def)
  from delete_recursive_ok[OF b bal, of k "size_avl self"] obtain t' where
    rec: "delete_recursive (root self) k (size_avl self) =
            Inr (t', if k \<in> keys (root self) then size_avl self - 1 else size_avl self)"
    and t': "bst t'" "balanced t'" "keys t' = keys (root self) - {k}"
    and ht: "get_height t' = get_height (root self) \<or> get_height t' = get_height (root self) - 1"
    and same: "k \<notin> keys (root self) \<longrightarrow> t' = root self"
    by blast
  let ?sz = "if k \<in> keys (root self) then size_avl self - 1 else size_avl self"
  let ?s = "self\<lparr>root := t', size_avl := ?sz\<rparr>"
  have res: "delete self (Key k) = (Inr (k \<in> keys (root self)), ?s)"
    using rec by (simp add: delete_def)
  have c: "card (keys t') = (if k \<in> keys (root self) then card (keys (root self)) - 1
                              else card (keys (root self)))"
    using t'(3) by (simp add: card_Diff_singleton_if)
  have pos: "0 < card (keys (root self))" if "k \<in> keys (root self)"
    using that finite_keys[of "root self"] card_gt_0_iff by blast
  have "int (length (inorder t')) =
          (if k \<in> keys (root self) then int (length (inorder (root self))) - 1
           else int (length (inorder (root self))))"
  proof (cases "k \<in> keys (root self)")
    case True
    with c pos bst_length[OF t'(1)] bst_length[OF b] show ?thesis by simp
  next
    case False
    with c bst_length[OF t'(1)] bst_length[OF b] show ?thesis by simp
  qed
  with sz t' have v: "valid ?s" by (simp add: valid_def)
  have "k \<notin> keys (root self) \<longrightarrow> ?s = self" using same by simp
  with res v t'(3) ht show ?thesis by auto
qed

lemma delete_returns:
  assumes "delete self key = (Inr b, self')"
  shows "\<exists>k. key = Key k"
  using assms by (cases key) (auto simp: delete_def)

lemma valid_init: "valid (init ms md)"
  by (simp add: valid_def init_def)

lemma reachable_valid: "reachable self \<Longrightarrow> valid self"
proof (induction rule: reachable.induct)
  case (fresh ms md)
  show ?case by (rule valid_init)
next
  case (after_insert self key b self')
  from insert_avl_returns[OF after_insert.hyps(2)] obtain k where
    k: "key = Key k" "\<not> at_capacity self" "get_height (root self) < max_depth self"
    by blast
  from insert_avl_ok[OF after_insert.IH k(2,3), of k] after_insert.hyps(2) k(1)
  show ?case by auto
next
  case (after_delete self key b self')
  from delete_returns[OF after_delete.hyps(2)] obtain k where k: "key = Key k" by blast
  from delete_ok[OF after_delete.IH, of k] after_delete.hyps(2) k
  show ?case by auto
qed

lemma insert_all_reachable:
  "reachable self \<Longrightarrow> insert_all self ks = (Inr bs, self') \<Longrightarrow> reachable self'"
proof (induction ks arbitrary: self bs)
  case Nil
  then show ?case by simp
next
  case (Cons k ks)
  from Cons.prems(2) obtain b s1 bs' where
    s1: "insert_avl self k = (Inr b, s1)" and rest: "insert_all s1 ks = (Inr bs', self')"
    by (auto split: prod.splits sum.splits)
  from reachable.after_insert[OF Cons.prems(1) s1] Cons.IH rest show ?case by blast
qed

lemma nodes_invariant:
  "bst t \<Longrightarrow> balanced t \<Longrightarrow> AVLNode v l r h \<in> nodes t \<Longrightarrow>
   (\<forall>x\<in>keys l. x < v) \<and> (\<forall>x\<in>keys r. v < x) \<and>
   h = 1 + max (get_height l) (get_height r) \<and> \<bar>get_height l - get_height r\<bar> \<le> 1"
  by (induction t) auto

lemma visited_depths_bound:
  "balanced t \<Longrightarrow> x \<in> set (visited_depths t k depth) \<Longrightarrow> x \<le> depth + get_height t"
proof (induction t arbitrary: depth)
  case NoNode
  then show ?case by simp
next
  case (AVLNode v l r h)
  from AVLNode.prems(1) have bl: "balanced l" and br: "balanced r"
    and h: "h = 1 + max (get_height l) (get_height r)"
    by auto
  from get_height_nonneg[OF bl] get_height_nonneg[OF br] h have h0: "0 \<le> h" by simp
  from AVLNode.prems(2) consider (here) "x = depth"
    | (left) "k < v" "x \<in> set (visited_depths l k (depth + 1))"
    | (right) "\<not> k < v" "k > v" "x \<in> set (visited_depths r k (depth + 1))"
    by (auto split: if_splits)
  then show ?case
  proof cases
    case here
    with h0 show ?thesis by simp
  next
    case left
    from AVLNode.IH(1)[OF bl left(2)] h show ?thesis by simp
  next
    case right
    from AVLNode.IH(2)[OF br right(3)] h show ?thesis by simp
  qed
qed

section \<open>The tree of the demonstration\<close>

lemma demo_tree_built:
  "insert_all (init None 1000) (map Key [10, 20, 30, 40, 50, 25]) =
     (Inr [True, True, True, True, True, True], demo_tree)"
  unfolding demo_tree_def by code_simp

lemma demo_tree_reachable: "reachable demo_tree"
  using insert_all_reachable[OF reachable.fresh demo_tree_built] .

section \<open>Height against number of nodes\<close>

lemma height_log_bound:
  "balanced t \<Longrightarrow> 2 ^ (nat (get_height t) div 2) \<le> length (inorder t) + 1"
proof (induction t)
  case NoNode
  then show ?case by simp
next
  case (AVLNode v l r h)
  then have bl: "balanced l" and br: "balanced r"
    and h: "h = 1 + max (get_height l) (get_height r)"
    and bal: "\<bar>get_height l - get_height r\<bar> \<le> 1"
    by auto
  let ?a = "nat (get_height l) div 2" and ?b = "nat (get_height r) div 2"
  let ?c = "nat h div 2"
  from AVLNode.IH bl br have il: "2 ^ ?a \<le> length (inorder l) + 1"
    and ir: "2 ^ ?b \<le> length (inorder r) + 1" by auto
  from h bal get_height_nonneg[OF bl] get_height_nonneg[OF br]
  have ca: "?c \<le> ?a + 1" and cb: "?c \<le> ?b + 1" by auto
  have "(2::nat) ^ ?c \<le> 2 ^ ?a + 2 ^ ?b"
  proof (cases ?c)
    case 0
    then show ?thesis by (simp add: Suc_leI trans_le_add1)
  next
    case (Suc c')
    with ca cb have "c' \<le> ?a" "c' \<le> ?b" by auto
    then have p: "(2::nat) ^ c' \<le> 2 ^ ?a" "(2::nat) ^ c' \<le> 2 ^ ?b"
      by (simp_all add: power_increasing)
    from p have "2 * (2::nat) ^ c' \<le> 2 ^ ?a + 2 ^ ?b" by linarith
    with Suc show ?thesis by simp
  qed
  with il ir show ?case by simp
qed

lemma height_below_limit:
  assumes "balanced t" "length (inorder t) + 1 < 2 ^ (nat md div 2)"
  shows "get_height t < md"
proof (rule ccontr)
  assume "\<not> get_height t < md"
  then have "nat md div 2 \<le> nat (get_height t) div 2"
    by (simp add: div_le_mono nat_mono)
  then have "(2::nat) ^ (nat md div 2) \<le> 2 ^ (nat (get_height t) div 2)"
    by (simp add: power_increasing)
  with height_log_bound[OF assms(1)] assms(2) show False by simp
qed

lemma size_le_pow: "balanced t \<Longrightarrow> length (inorder t) + 1 \<le> 2 ^ nat (get_height t)"
proof (induction t)
  case NoNode
  then show ?case by simp
next
  case (AVLNode v l r h)
  then have bl: "balanced l" and br: "balanced r"
    and h: "h = 1 + max (get_height l) (get_height r)"
    by auto
  let ?m = "nat (max (get_height l) (get_height r))"
  from get_height_nonneg[OF bl] get_height_nonneg[OF br] h
  have hh: "nat h = Suc ?m" by simp
  have "nat (get_height l) \<le> ?m" "nat (get_height r) \<le> ?m" by simp_all
  then have "(2::nat) ^ nat (get_height l) \<le> 2 ^ ?m" "(2::nat) ^ nat (get_height r) \<le> 2 ^ ?m"
    by (simp_all add: power_increasing del: nat_le_eq_zle)
  with AVLNode.IH bl br have "length (inorder l) + 1 \<le> 2 ^ ?m" "length (inorder r) + 1 \<le> 2 ^ ?m"
    by (meson le_trans)+
  with hh show ?case by simp
qed

lemma insert_all_ok:
  assumes "valid self" "distinct ks" "set ks \<inter> keys (root self) = {}"
    "case max_size self of None \<Rightarrow> True | Some m \<Rightarrow> size_avl self + int (length ks) \<le> m"
    "length (inorder (root self)) + length ks < 2 ^ (nat (max_depth self) div 2)"
  shows "\<exists>self'. insert_all self (map Key ks) = (Inr (replicate (length ks) True), self') \<and>
           valid self' \<and> keys (root self') = keys (root self) \<union> set ks \<and>
           max_size self' = max_size self \<and> max_depth self' = max_depth self \<and>
           size_avl self' = size_avl self + int (length ks)"
  using assms
proof (induction ks arbitrary: self)
  case Nil
  then show ?case by simp
next
  case (Cons k ks)
  from Cons.prems(1) have bal: "balanced (root self)" by (simp add: valid_def)
  from Cons.prems(4) have nc: "\<not> at_capacity self"
    by (auto simp: at_capacity_def split: option.splits)
  from Cons.prems(5) have "length (inorder (root self)) + 1 < 2 ^ (nat (max_depth self) div 2)"
    by simp
  from height_below_limit[OF bal this] have d: "get_height (root self) < max_depth self" .
  from Cons.prems(3) have knew: "k \<notin> keys (root self)" by auto
  from insert_avl_ok[OF Cons.prems(1) nc d, of k] knew obtain s1 where
    s1: "insert_avl self (Key k) = (Inr True, s1)" and v1: "valid s1"
    and k1: "keys (root s1) = insert k (keys (root self))"
    and m1: "max_size s1 = max_size self" "max_depth s1 = max_depth self"
    and sz1: "size_avl s1 = size_avl self + 1"
    by auto
  from v1 Cons.prems(1) sz1 have len1: "length (inorder (root s1)) = length (inorder (root self)) + 1"
    by (simp add: valid_def)
  have p2: "distinct ks" and p3: "set ks \<inter> keys (root s1) = {}"
    using Cons.prems(2,3) k1 by auto
  have p4: "case max_size s1 of None \<Rightarrow> True | Some m \<Rightarrow> size_avl s1 + int (length ks) \<le> m"
    using Cons.prems(4) m1 sz1 by (auto split: option.splits)
  have p5: "length (inorder (root s1)) + length ks < 2 ^ (nat (max_depth s1) div 2)"
    using Cons.prems(5) m1 len1 by simp
  from Cons.IH[OF v1 p2 p3 p4 p5] obtain s2 where
    s2: "insert_all s1 (map Key ks) = (Inr (replicate (length ks) True), s2)"
    and v2: "valid s2" and k2: "keys (root s2) = keys (root s1) \<union> set ks"
    and m2: "max_size s2 = max_size s1" "max_depth s2 = max_depth s1"
    and sz2: "size_avl s2 = size_avl s1 + int (length ks)"
    by blast
  have "insert_all self (map Key (k # ks)) = (Inr (replicate (length (k # ks)) True), s2)"
    using s1 s2 by simp
  with v2 k2 k1 m1 m2 sz1 sz2 show ?case by auto
qed

section \<open>Ascending insertion\<close>

lemma complete_balanced: "complete t \<Longrightarrow> balanced t"
  by (induction t) auto

lemma packed_balanced: "packed t \<Longrightarrow> balanced t"
  by (induction t) (auto simp: complete_balanced)

lemma complete_size: "complete t \<Longrightarrow> length (inorder t) + 1 = 2 ^ nat (get_height t)"
proof (induction t)
  case NoNode
  then show ?case by simp
next
  case (AVLNode v l r h)
  then have cl: "complete l" and cr: "complete r"
    and eq: "get_height l = get_height r" and h: "h = 1 + get_height l"
    by auto
  from get_height_nonneg[OF complete_balanced[OF cl]] h
  have "nat h = Suc (nat (get_height l))" by simp
  moreover from AVLNode.IH cl cr eq
  have "length (inorder l) + 1 = 2 ^ nat (get_height l)"
    "length (inorder r) + 1 = 2 ^ nat (get_height l)" by auto
  ultimately show ?case by simp
qed

lemma packed_size: "packed t \<Longrightarrow> 2 ^ nat (get_height t) \<le> 2 * length (inorder t) + 1"
proof (induction t)
  case NoNode
  then show ?case by simp
next
  case (AVLNode v l r h)
  then have cl: "complete l" and pr: "packed r"
    and hr: "get_height r = get_height l \<or> get_height r = get_height l + 1"
    and h: "h = 1 + get_height r"
    by auto
  have a0: "0 \<le> get_height l" by (rule get_height_nonneg[OF complete_balanced[OF cl]])
  have r0: "0 \<le> get_height r" by (rule get_height_nonneg[OF packed_balanced[OF pr]])
  from complete_size[OF cl] have sl: "length (inorder l) + 1 = 2 ^ nat (get_height l)" .
  from AVLNode.IH(2)[OF pr] have ir: "2 ^ nat (get_height r) \<le> 2 * length (inorder r) + 1" .
  have "(2::nat) ^ nat (get_height r) \<le> 2 ^ nat (get_height l) + length (inorder r)"
  proof (cases "get_height r = get_height l")
    case True
    then show ?thesis by simp
  next
    case False
    with hr a0 have "nat (get_height r) = Suc (nat (get_height l))" by simp
    with ir show ?thesis by simp
  qed
  moreover from h r0 have "nat h = Suc (nat (get_height r))" by simp
  ultimately show ?case using sl by simp
qed

lemma packed_height:
  assumes "packed t" "length (inorder t) < 2 ^ k"
  shows "get_height t \<le> int k"
proof (rule ccontr)
  assume "\<not> get_height t \<le> int k"
  then have "Suc k \<le> nat (get_height t)" by simp
  then have "(2::nat) ^ Suc k \<le> 2 ^ nat (get_height t)"
    by (rule power_increasing) simp
  with packed_size[OF assms(1)] assms(2) show False by simp
qed

lemma insert_recursive_packed:
  assumes "packed t" "\<forall>x\<in>keys t. x < k" "depth + get_height t \<le> md"
  shows "\<exists>t'. insert_recursive md t k depth sz = Inr (t', sz + 1) \<and> packed t' \<and>
              (get_height t' = get_height t \<or>
               get_height t' = get_height t + 1 \<and>
               (\<exists>v l r h. t' = AVLNode v l r h \<and> (h = 1 \<or> get_height r = get_height l + 1)))"
  using assms
proof (induction t arbitrary: depth)
  case NoNode
  then show ?case by simp
next
  case (AVLNode v l r h)
  from AVLNode.prems(1) have cl: "complete l" and pr: "packed r"
    and hr: "get_height r = get_height l \<or> get_height r = get_height l + 1"
    and h: "h = 1 + get_height r"
    by auto
  have a0: "0 \<le> get_height l" by (rule get_height_nonneg[OF complete_balanced[OF cl]])
  have r0: "0 \<le> get_height r" by (rule get_height_nonneg[OF packed_balanced[OF pr]])
  from AVLNode.prems(2) have vk: "v < k" and rk: "\<forall>x\<in>keys r. x < k" by auto
  from AVLNode.prems(3) h r0 have d: "\<not> depth > md" and dr: "(depth + 1) + get_height r \<le> md"
    by auto
  from AVLNode.IH(2)[OF pr rk dr] obtain r' where
    rec: "insert_recursive md r k (depth + 1) sz = Inr (r', sz + 1)" and pr': "packed r'"
    and hr': "get_height r' = get_height r \<or>
              get_height r' = get_height r + 1 \<and>
              (\<exists>v l r h. r' = AVLNode v l r h \<and> (h = 1 \<or> get_height r = get_height l + 1))"
    by blast
  let ?n0 = "AVLNode v l r' (1 + max (get_height l) (get_height r'))"
  from vk have nk: "\<not> k < v" by (simp add: not_less less_imp_le)
  have step: "insert_recursive md (AVLNode v l r h) k depth sz =
                (case rebalance ?n0 of Inl e \<Rightarrow> Inl e | Inr n \<Rightarrow> Inr (n, sz + 1))"
    using d vk nk rec by simp
  show ?case
  proof (cases "get_height r' \<le> get_height l + 1")
    case True
    with hr hr' have near: "\<bar>get_height l - get_height r'\<bar> \<le> 1" by auto
    from rebalance_unchanged[OF near] step
    have res: "insert_recursive md (AVLNode v l r h) k depth sz = Inr (?n0, sz + 1)" by simp
    from True hr hr' have hr2: "get_height r' = get_height l \<or> get_height r' = get_height l + 1"
      by auto
    with cl pr' have p: "packed ?n0" by auto
    from hr2 hr hr' h True
    have "get_height ?n0 = h \<or> get_height ?n0 = h + 1 \<and> get_height r' = get_height l + 1"
      by auto
    with res p show ?thesis by auto
  next
    case False
    with hr hr' have hr1: "get_height r = get_height l + 1"
      and g: "get_height r' = get_height l + 2" by auto
    with hr' obtain rv rl rr rh where r': "r' = AVLNode rv rl rr rh"
      and rh: "rh = 1 \<or> get_height rr = get_height rl + 1"
      by auto
    from pr' r' have crl: "complete rl" and prr: "packed rr" and rhh: "rh = 1 + get_height rr"
      by auto
    from g r' a0 rh rhh have hrr: "get_height rr = get_height l + 1"
      and hrl: "get_height rl = get_height l" by auto
    let ?z = "AVLNode v l rl (1 + get_height l)"
    let ?y = "AVLNode rv ?z rr (get_height l + 2)"
    have "rebalance ?n0 = Inr ?y"
      using r' g hrr hrl rhh by (simp add: rebalance.simps)
    with step have res: "insert_recursive md (AVLNode v l r h) k depth sz = Inr (?y, sz + 1)"
      by simp
    have "packed ?y" using cl crl prr hrr hrl by simp
    moreover have "get_height ?y = h" using h hr1 by simp
    ultimately show ?thesis using res by auto
  qed
qed

lemma insert_avl_packed:
  assumes "valid self" "packed (root self)" "\<forall>x\<in>keys (root self). x < k"
    "\<not> at_capacity self" "get_height (root self) < max_depth self"
  shows "\<exists>self'. insert_avl self (Key k) = (Inr True, self') \<and> valid self' \<and>
           packed (root self') \<and> keys (root self') = insert k (keys (root self)) \<and>
           max_size self' = max_size self \<and> max_depth self' = max_depth self \<and>
           size_avl self' = size_avl self + 1"
proof -
  from assms(3) have knew: "k \<notin> keys (root self)" by auto
  from insert_avl_ok[OF assms(1,4,5), of k] knew obtain self' where
    r: "insert_avl self (Key k) = (Inr True, self')" and v: "valid self'"
    and ks: "keys (root self') = insert k (keys (root self))"
    and m: "max_size self' = max_size self" "max_depth self' = max_depth self"
    and sz: "size_avl self' = size_avl self + 1"
    by auto
  from assms(5) have "0 + get_height (root self) \<le> max_depth self" by simp
  from insert_recursive_packed[OF assms(2,3) this, of "size_avl self"] obtain t' where
    rec: "insert_recursive (max_depth self) (root self) k 0 (size_avl self) =
            Inr (t', size_avl self + 1)" and p: "packed t'"
    by blast
  from rec assms(4,5) have "insert_avl self (Key k) =
      (Inr True, self\<lparr>root := t', size_avl := size_avl self + 1\<rparr>)"
    by (simp add: insert_avl_def at_capacity_def)
  with r have "root self' = t'" by auto
  with p r v ks m sz show ?thesis by auto
qed

lemma insert_each_ascending:
  assumes "valid self" "packed (root self)" "sorted_wrt (<) ks"
    "\<forall>x\<in>keys (root self). \<forall>k\<in>set ks. x < k"
    "ks \<noteq> [] \<Longrightarrow> (\<forall>m. max_size self = Some m \<longrightarrow> size_avl self + int (length ks) \<le> m)"
    "ks \<noteq> [] \<Longrightarrow> 1 \<le> max_depth self \<and>
       length (inorder (root self)) + length ks \<le> 2 ^ nat (max_depth self - 1)"
  shows "\<exists>self'. insert_each self (map Key ks) = (Inr (), self') \<and> valid self' \<and>
           keys (root self') = keys (root self) \<union> set ks \<and>
           max_size self' = max_size self \<and> max_depth self' = max_depth self"
  using assms
proof (induction ks arbitrary: self)
  case Nil
  then show ?case by simp
next
  case (Cons k ks)
  from Cons.prems(5) have cap: "\<forall>m. max_size self = Some m \<longrightarrow>
      size_avl self + int (length (k # ks)) \<le> m" by simp
  from Cons.prems(6) have d1: "1 \<le> max_depth self"
    and len: "length (inorder (root self)) + length (k # ks) \<le> 2 ^ nat (max_depth self - 1)"
    by simp_all
  from cap have nc: "\<not> at_capacity self"
    by (auto simp: at_capacity_def split: option.splits)
  from len have "length (inorder (root self)) < 2 ^ nat (max_depth self - 1)" by simp
  from packed_height[OF Cons.prems(2) this] d1
  have d: "get_height (root self) < max_depth self" by simp
  from Cons.prems(4) have lt: "\<forall>x\<in>keys (root self). x < k" by simp
  from insert_avl_packed[OF Cons.prems(1,2) lt nc d] obtain s1 where
    s1: "insert_avl self (Key k) = (Inr True, s1)" and v1: "valid s1"
    and p1: "packed (root s1)" and k1: "keys (root s1) = insert k (keys (root self))"
    and m1: "max_size s1 = max_size self" "max_depth s1 = max_depth self"
    and sz1: "size_avl s1 = size_avl self + 1"
    by blast
  from v1 Cons.prems(1) sz1 have len1: "length (inorder (root s1)) = length (inorder (root self)) + 1"
    by (simp add: valid_def)
  have q3: "sorted_wrt (<) ks" using Cons.prems(3) by simp
  have q4: "\<forall>x\<in>keys (root s1). \<forall>k\<in>set ks. x < k"
    using Cons.prems(3,4) k1 by auto
  have q5: "ks \<noteq> [] \<Longrightarrow> (\<forall>m. max_size s1 = Some m \<longrightarrow> size_avl s1 + int (length ks) \<le> m)"
    using cap m1 sz1 by (simp add: add.assoc)
  have q6: "ks \<noteq> [] \<Longrightarrow> 1 \<le> max_depth s1 \<and>
       length (inorder (root s1)) + length ks \<le> 2 ^ nat (max_depth s1 - 1)"
    using d1 len m1 len1 by simp
  from Cons.IH[OF v1 p1 q3 q4 q5 q6] obtain s2 where
    s2: "insert_each s1 (map Key ks) = (Inr (), s2)" and v2: "valid s2"
    and k2: "keys (root s2) = keys (root s1) \<union> set ks"
    and m2: "max_size s2 = max_size s1" "max_depth s2 = max_depth s1"
    by blast
  from s1 s2 have "insert_each self (map Key (k # ks)) = (Inr (), s2)" by simp
  with v2 k2 k1 m1 m2 show ?case by auto
qed

lemma reachable_bounds:
  "reachable self \<Longrightarrow>
   root self = NoNode \<or>
   (1 \<le> max_depth self \<and> length (inorder (root self)) \<le> 2 ^ nat (max_depth self - 1) \<and>
    (\<forall>m. max_size self = Some m \<longrightarrow> size_avl self \<le> m))"
proof (induction rule: reachable.induct)
  case (fresh ms md)
  show ?case by (simp add: init_def)
next
  case (after_insert self key b self')
  from insert_avl_returns[OF after_insert.hyps(2)] obtain k where
    k: "key = Key k" and nc: "\<not> at_capacity self" and d: "get_height (root self) < max_depth self"
    by blast
  have v: "valid self" by (rule reachable_valid[OF after_insert.hyps(1)])
  then have bal: "balanced (root self)" and sz: "size_avl self = int (length (inorder (root self)))"
    by (simp_all add: valid_def)
  from insert_avl_ok[OF v nc d, of k] after_insert.hyps(2) k have
    v': "valid self'" and m: "max_size self' = max_size self" "max_depth self' = max_depth self"
    and sz': "size_avl self' \<le> size_avl self + 1"
    by auto
  from v' have sz2: "size_avl self' = int (length (inorder (root self')))" by (simp add: valid_def)
  from get_height_nonneg[OF bal] d have d1: "1 \<le> max_depth self" by simp
  from d get_height_nonneg[OF bal] have "nat (get_height (root self)) \<le> nat (max_depth self - 1)"
    by simp
  then have pw: "(2::nat) ^ nat (get_height (root self)) \<le> 2 ^ nat (max_depth self - 1)"
    by (rule power_increasing) simp
  have "length (inorder (root self)) + 1 \<le> 2 ^ nat (max_depth self - 1)"
    by (rule le_trans[OF size_le_pow[OF bal] pw])
  with sz sz' sz2 have "length (inorder (root self')) \<le> 2 ^ nat (max_depth self - 1)"
    by simp
  moreover from nc sz' have "\<forall>m. max_size self = Some m \<longrightarrow> size_avl self' \<le> m"
    by (auto simp: at_capacity_def)
  ultimately show ?case using d1 m by simp
next
  case (after_delete self key b self')
  from delete_returns[OF after_delete.hyps(2)] obtain k where k: "key = Key k" by blast
  have v: "valid self" by (rule reachable_valid[OF after_delete.hyps(1)])
  from delete_ok[OF v, of k] after_delete.hyps(2) k have
    v': "valid self'" and m: "max_size self' = max_size self" "max_depth self' = max_depth self"
    and sz': "size_avl self' \<le> size_avl self"
    and ks: "keys (root self') = keys (root self) - {k}"
    by auto
  from v v' have sz: "size_avl self = int (length (inorder (root self)))"
    and sz2: "size_avl self' = int (length (inorder (root self')))" by (simp_all add: valid_def)
  show ?case
  proof (cases "root self = NoNode")
    case True
    with ks have "keys (root self') = {}" by simp
    then have "root self' = NoNode" by (cases "root self'") auto
    then show ?thesis by simp
  next
    case False
    with after_delete.IH sz sz' sz2 m show ?thesis by auto
  qed
qed

lemma from_list_round_trip:
  assumes "reachable self"
  shows "\<exists>self'. from_list self (map Key (to_list self)) = (Inr (), self') \<and>
                 to_list self' = to_list self"
proof -
  have v: "valid self" by (rule reachable_valid[OF assms])
  then have b: "bst (root self)" and sz: "size_avl self = int (length (inorder (root self)))"
    by (simp_all add: valid_def)
  let ?c = "self\<lparr>root := NoNode, size_avl := 0\<rparr>"
  let ?ks = "inorder (root self)"
  have vc: "valid ?c" by (simp add: valid_def)
  have pc: "packed (root ?c)" by simp
  have so: "sorted_wrt (<) ?ks" using b bst_iff_sorted by blast
  have q4: "\<forall>x\<in>keys (root ?c). \<forall>k\<in>set ?ks. x < k" by simp
  have ne: "root self \<noteq> NoNode" if "?ks \<noteq> []" using that by (cases "root self") auto
  have q5: "?ks \<noteq> [] \<Longrightarrow>
      (\<forall>m. max_size ?c = Some m \<longrightarrow> size_avl ?c + int (length ?ks) \<le> m)"
    using reachable_bounds[OF assms] ne sz by auto
  have q6: "?ks \<noteq> [] \<Longrightarrow> 1 \<le> max_depth ?c \<and>
       length (inorder (root ?c)) + length ?ks \<le> 2 ^ nat (max_depth ?c - 1)"
    using reachable_bounds[OF assms] ne by auto
  from insert_each_ascending[OF vc pc so q4 q5 q6] obtain self' where
    r: "insert_each ?c (map Key ?ks) = (Inr (), self')" and v': "valid self'"
    and ks: "keys (root self') = keys (root ?c) \<union> set ?ks"
    by blast
  from v' have b': "bst (root self')" by (simp add: valid_def)
  from ks have "keys (root self') = keys (root self)" by (simp add: set_inorder)
  with bst_inorder[OF b'] bst_inorder[OF b] have "inorder (root self') = inorder (root self)"
    by simp
  then have "to_list self' = to_list self"
    by (simp add: to_list_def in_order_traversal_eq)
  moreover from r have "from_list self (map Key (to_list self)) = (Inr (), self')"
    by (simp add: from_list_def to_list_def in_order_traversal_eq)
  ultimately show ?thesis by blast
qed

section \<open>The validator on valid trees\<close>

text \<open>The validator on a valid tree: with keys that are numbers strictly between the two
  floats it returns true; a key that is \<^verbatim>\<open>float('-inf')\<close> or \<^verbatim>\<open>float('inf')\<close> itself makes it
  return false; with keys that Python does not order against a float it raises on the first
  node.\<close>

lemma validate_avl_numeric:
  assumes "bst t" "balanced t" "\<forall>x\<in>keys t. above lo x \<and> below hi x"
    "\<forall>x\<in>keys t. float_order x = Some Between"
  shows "validate_avl float_order t lo hi = Inr True"
  using assms
proof (induction t arbitrary: lo hi)
  case NoNode
  then show ?case by simp
next
  case (AVLNode v l r h)
  from AVLNode.prems have sl: "bst l" and sr: "bst r" and bl: "balanced l" and br: "balanced r"
    and h: "h = 1 + max (get_height l) (get_height r)"
    and bal: "\<bar>get_height l - get_height r\<bar> \<le> 1"
    and lt: "\<forall>x\<in>keys l. x < v" and gt: "\<forall>x\<in>keys r. v < x"
    and av: "above lo v" and bv: "below hi v"
    and fv: "float_order v = Some Between"
    and fl: "\<forall>x\<in>keys l. float_order x = Some Between"
    and fr: "\<forall>x\<in>keys r. float_order x = Some Between"
    by auto
  from av fv have le: "val_le float_order v lo = Inr False" by (cases lo) auto
  from bv fv have ge: "val_ge float_order v hi = Inr False" by (cases hi) auto
  from AVLNode.prems(3) lt have "\<forall>x\<in>keys l. above lo x \<and> below (KeyBound v) x" by simp
  from AVLNode.IH(1)[OF sl bl this fl]
  have vl: "validate_avl float_order l lo (KeyBound v) = Inr True" .
  from AVLNode.prems(3) gt have "\<forall>x\<in>keys r. above (KeyBound v) x \<and> below hi x" by simp
  from AVLNode.IH(2)[OF sr br this fr]
  have vr: "validate_avl float_order r (KeyBound v) hi = Inr True" .
  from le ge vl vr h bal show ?case by simp
qed

lemma is_valid_avl_numeric:
  "valid self \<Longrightarrow> \<forall>x\<in>keys (root self). float_order x = Some Between \<Longrightarrow>
   is_valid_avl float_order self = Inr True"
  unfolding is_valid_avl_def by (rule validate_avl_numeric) (simp_all add: valid_def)

lemma is_valid_avl_infinite_key:
  "float_order v = Some IsNegInf \<or> float_order v = Some IsPosInf \<Longrightarrow>
   is_valid_avl float_order
     \<lparr>root = AVLNode v NoNode NoNode 1, size_avl = 1, max_size = ms, max_depth = md\<rparr> = Inr False"
  by (auto simp: is_valid_avl_def)

lemma is_valid_avl_unordered_with_float:
  "is_valid_avl (\<lambda>key. None) self = (if root self = NoNode then Inr True else Inl TypeError)"
  unfolding is_valid_avl_def by (cases "root self") simp_all

section \<open>The claims\<close>

text \<open>C1. In every tree built from a new tree by calls of insert and delete that return,
  each node has only smaller keys in its left subtree and only larger keys in its right
  subtree, its cached height is one more than the larger of its children's heights, the
  heights of its children differ by at most one, and no key is held by two nodes.\<close>

theorem reachable_avl_invariant:
  assumes "reachable self"
  shows "(\<forall>v l r h. AVLNode v l r h \<in> nodes (root self) \<longrightarrow>
            (\<forall>x\<in>keys l. x < v) \<and> (\<forall>x\<in>keys r. v < x) \<and>
            h = 1 + max (get_height l) (get_height r) \<and>
            \<bar>get_height l - get_height r\<bar> \<le> 1) \<and>
         distinct (inorder (root self))"
proof -
  from reachable_valid[OF assms] have "bst (root self)" "balanced (root self)"
    by (simp_all add: valid_def)
  then show ?thesis using nodes_invariant bst_distinct by blast
qed

theorem reachable_avl_invariant_witness:
  "reachable demo_tree \<and>
   AVLNode 20 (AVLNode 10 NoNode NoNode 1) (AVLNode 25 NoNode NoNode 1) 2 \<in> nodes (root demo_tree) \<and>
   keys (AVLNode (10::int) NoNode NoNode 1) = {10} \<and> (10::int) < 20 \<and>
   keys (AVLNode (25::int) NoNode NoNode 1) = {25} \<and> (20::int) < 25 \<and>
   (2::int) = 1 + max (get_height (AVLNode (10::int) NoNode NoNode 1))
                      (get_height (AVLNode (25::int) NoNode NoNode 1)) \<and>
   \<bar>get_height (AVLNode (10::int) NoNode NoNode 1) -
     get_height (AVLNode (25::int) NoNode NoNode 1)\<bar> \<le> 1 \<and>
   distinct (inorder (root demo_tree))"
proof -
  have n: "AVLNode 20 (AVLNode 10 NoNode NoNode 1) (AVLNode 25 NoNode NoNode 1) 2
             \<in> nodes (root demo_tree)"
    by (simp add: demo_tree_def)
  from reachable_avl_invariant[OF demo_tree_reachable] n demo_tree_reachable
  show ?thesis by simp
qed

text \<open>C2. Pairwise distinct keys of one ordered type, inserted one after the other in any
  order into a new tree with no max_size and the default max_depth, are all inserted (each
  call returns true), and in_order_traversal then returns the keys in ascending order. The
  sequence is one that fits into a Python list: fewer than 2 ^ 500 keys (a list has at most
  sys.maxsize, below 2 ^ 63, elements), so that no tree on the way reaches height 1000.\<close>

theorem insert_distinct_sorted:
  assumes "distinct ks" "length ks < 2 ^ 500"
  shows "\<exists>self. insert_all (init None 1000) (map Key ks) =
                  (Inr (replicate (length ks) True), self) \<and>
                in_order_traversal self = sort ks"
proof -
  have "\<exists>self. insert_all (init None 1000) (map Key ks) =
                  (Inr (replicate (length ks) True), self) \<and> valid self \<and>
                keys (root self) = keys (root (init None 1000 :: 'a avl_tree)) \<union> set ks \<and>
                max_size self = max_size (init None 1000 :: 'a avl_tree) \<and>
                max_depth self = max_depth (init None 1000 :: 'a avl_tree) \<and>
                size_avl self = size_avl (init None 1000 :: 'a avl_tree) + int (length ks)"
    using assms by (intro insert_all_ok valid_init) (simp_all add: init_def)
  then obtain self where
    r: "insert_all (init None 1000) (map Key ks) = (Inr (replicate (length ks) True), self)"
    and v: "valid self" and k: "keys (root self) = set ks"
    by (auto simp: init_def)
  from v have "bst (root self)" by (simp add: valid_def)
  from bst_inorder[OF this] k have "in_order_traversal self = sorted_list_of_set (set ks)"
    by (simp add: in_order_traversal_eq)
  also have "\<dots> = sort ks"
    using assms(1) by (simp add: sorted_list_of_set_sort_remdups distinct_remdups_id)
  finally show ?thesis using r by blast
qed

theorem insert_distinct_sorted_witness:
  "distinct [10, 20, 30, 40, 50, 25 :: int] \<and>
   length [10, 20, 30, 40, 50, 25 :: int] < 2 ^ 500 \<and>
   (\<exists>self. insert_all (init None 1000) (map Key [10, 20, 30, 40, 50, 25 :: int]) =
              (Inr (replicate (length [10, 20, 30, 40, 50, 25 :: int]) True), self) \<and>
            in_order_traversal self = sort [10, 20, 30, 40, 50, 25]) \<and>
   in_order_traversal demo_tree = [10, 20, 25, 30, 40, 50]"
proof -
  have d: "distinct [10, 20, 30, 40, 50, 25 :: int]" by simp
  have l: "length [10, 20, 30, 40, 50, 25 :: int] < 2 ^ 500" by simp
  have e: "in_order_traversal demo_tree = [10, 20, 25, 30, 40, 50]"
    by (simp add: demo_tree_def in_order_traversal_def)
  from insert_distinct_sorted[OF d l] d l e show ?thesis by blast
qed

text \<open>C3, as amended. On a valid tree that is below its capacity and whose height is below
  max_depth, insert of a key already present returns false, raises nothing and leaves the
  tree, its size included, as it was.\<close>

theorem insert_duplicate_noop:
  assumes "valid self" "k \<in> keys (root self)" "\<not> at_capacity self"
    "get_height (root self) < max_depth self"
  shows "insert_avl self (Key k) = (Inr False, self)"
  using insert_avl_ok[OF assms(1,3,4), of k] assms(2) by auto

theorem insert_duplicate_noop_witness:
  "valid demo_tree \<and> 25 \<in> keys (root demo_tree) \<and> \<not> at_capacity demo_tree \<and>
   get_height (root demo_tree) < max_depth demo_tree \<and>
   insert_avl demo_tree (Key 25) = (Inr False, demo_tree)"
proof -
  have v: "valid demo_tree" by (rule reachable_valid[OF demo_tree_reachable])
  have k: "25 \<in> keys (root demo_tree)" by (simp add: demo_tree_def)
  have c: "\<not> at_capacity demo_tree" by (simp add: demo_tree_def at_capacity_def)
  have d: "get_height (root demo_tree) < max_depth demo_tree" by (simp add: demo_tree_def)
  from insert_duplicate_noop[OF v k c d] v k c d show ?thesis by blast
qed

text \<open>C3 as stated fails: in a tree with max_size 1 that holds the key 5, insert of 5 raises
  the capacity error, since the capacity test comes before the descent.\<close>

theorem insert_duplicate_at_capacity:
  "insert_avl (init (Some 1) 1000) (Key (5::int)) =
     (Inr True, \<lparr>root = AVLNode 5 NoNode NoNode 1, size_avl = 1,
                 max_size = Some 1, max_depth = 1000\<rparr>) \<and>
   insert_avl \<lparr>root = AVLNode 5 NoNode NoNode 1, size_avl = 1,
               max_size = Some 1, max_depth = 1000\<rparr> (Key (5::int)) =
     (Inl AVLTreeCapacityError, \<lparr>root = AVLNode 5 NoNode NoNode 1, size_avl = 1,
                 max_size = Some 1, max_depth = 1000\<rparr>)"
  by (simp add: insert_avl_def init_def)

text \<open>C4 fails on the code for keys that are not numbers: with the composite key
  (85, ''c1'') in the tree, the first comparison of the validator, of the key with
  float('-inf'), raises TypeError (Python orders no tuple against a float: \<open>float_order\<close> is
  \<open>None\<close> on every key).\<close>

theorem is_valid_avl_composite_key:
  "insert_avl (init None 1000) (Key ((85::int), ''c1'')) =
     (Inr True, \<lparr>root = AVLNode (85, ''c1'') NoNode NoNode 1, size_avl = 1,
                 max_size = None, max_depth = 1000\<rparr>) \<and>
   is_valid_avl (\<lambda>key. None)
     \<lparr>root = AVLNode ((85::int), ''c1'') NoNode NoNode 1, size_avl = 1,
      max_size = None, max_depth = 1000\<rparr> = Inl TypeError"
  by (simp add: insert_avl_def init_def is_valid_avl_def)

text \<open>C5. On a valid tree, delete of a key that is present returns true, lowers the size by
  one, and the ascending export afterwards is the export before without that key; the tree
  is still a search tree with correct heights and the AVL balance.\<close>

theorem delete_present:
  assumes "valid self" "k \<in> keys (root self)"
  shows "\<exists>self'. delete self (Key k) = (Inr True, self') \<and>
           size_avl self' = size_avl self - 1 \<and>
           in_order_traversal self' = remove1 k (in_order_traversal self) \<and>
           bst (root self') \<and> balanced (root self') \<and> valid self'"
proof -
  from delete_ok[OF assms(1), of k] assms(2) obtain self' where
    d: "delete self (Key k) = (Inr True, self')" and v: "valid self'"
    and ks: "keys (root self') = keys (root self) - {k}"
    and sz: "size_avl self' = size_avl self - 1"
    by auto
  from v have b': "bst (root self')" "balanced (root self')" by (simp_all add: valid_def)
  from assms(1) have b: "bst (root self)" by (simp add: valid_def)
  have "in_order_traversal self' = sorted_list_of_set (keys (root self) - {k})"
    using bst_inorder[OF b'(1)] ks by (simp add: in_order_traversal_eq)
  also have "\<dots> = remove1 k (sorted_list_of_set (keys (root self)))"
    by (rule sorted_list_of_set_remove[OF finite_keys])
  also have "\<dots> = remove1 k (in_order_traversal self)"
    using bst_inorder[OF b] by (simp add: in_order_traversal_eq)
  finally show ?thesis using d v sz b' by blast
qed

theorem delete_present_witness:
  "valid demo_tree \<and> 20 \<in> keys (root demo_tree) \<and>
   (\<exists>self'. delete demo_tree (Key 20) = (Inr True, self') \<and>
           size_avl self' = size_avl demo_tree - 1 \<and>
           in_order_traversal self' = remove1 20 (in_order_traversal demo_tree) \<and>
           bst (root self') \<and> balanced (root self') \<and> valid self') \<and>
   in_order_traversal (snd (delete demo_tree (Key 20))) = [10, 25, 30, 40, 50]"
proof -
  have v: "valid demo_tree" by (rule reachable_valid[OF demo_tree_reachable])
  have k: "20 \<in> keys (root demo_tree)" by (simp add: demo_tree_def)
  have e: "in_order_traversal (snd (delete demo_tree (Key 20))) = [10, 25, 30, 40, 50]"
    by (simp add: demo_tree_def delete_def in_order_traversal_def rebalance.simps)
  from delete_present[OF v k] v k e show ?thesis by blast
qed

text \<open>C6. On a valid tree, delete of a key that is not present returns false and leaves the
  tree as it was: the same nodes with the same cached heights, the same size.\<close>

theorem delete_absent:
  assumes "valid self" "k \<notin> keys (root self)"
  shows "delete self (Key k) = (Inr False, self)"
  using delete_ok[OF assms(1), of k] assms(2) by auto

theorem delete_absent_witness:
  "valid demo_tree \<and> 99 \<notin> keys (root demo_tree) \<and>
   delete demo_tree (Key 99) = (Inr False, demo_tree)"
proof -
  have v: "valid demo_tree" by (rule reachable_valid[OF demo_tree_reachable])
  have k: "99 \<notin> keys (root demo_tree)" by (simp add: demo_tree_def)
  from delete_absent[OF v k] v k show ?thesis by blast
qed




text \<open>C8. With the key None, or a key whose type has no order, insert, delete and search
  raise the key error whatever the tree is, and the tree is unchanged.\<close>

theorem invalid_key_rejected:
  "insert_avl self PyNone = (Inl AVLTreeKeyError, self) \<and>
   insert_avl self PyUnordered = (Inl AVLTreeKeyError, self) \<and>
   delete self PyNone = (Inl AVLTreeKeyError, self) \<and>
   delete self PyUnordered = (Inl AVLTreeKeyError, self) \<and>
   search self PyNone = (Inl AVLTreeKeyError, self) \<and>
   search self PyUnordered = (Inl AVLTreeKeyError, self)"
  by (simp add: insert_avl_def delete_def search_def)

text \<open>C9, as amended. from_list is clear followed by insert of each key in order, stopping
  at the first exception. For every tree built by insert and delete, from_list of its own
  to_list returns and gives a tree with the same ascending export. A key of the input that
  is already in the tree is skipped when the tree is below its capacity and its height is
  below max_depth.\<close>

theorem from_list_contract:
  assumes "reachable self" "valid other" "k \<in> keys (root other)" "\<not> at_capacity other"
    "get_height (root other) < max_depth other"
  shows "from_list any key_list = clear_then_insert any key_list \<and>
         (\<exists>self'. from_list self (map Key (to_list self)) = (Inr (), self') \<and>
                   to_list self' = to_list self) \<and>
         insert_each other (Key k # rest) = insert_each other rest"
proof -
  have "from_list any key_list = clear_then_insert any key_list"
    by (simp add: from_list_def clear_then_insert_def clear_def)
  moreover have "insert_each other (Key k # rest) = insert_each other rest"
    using insert_avl_ok[OF assms(2,4,5), of k] assms(3) by auto
  ultimately show ?thesis using from_list_round_trip[OF assms(1)] by blast
qed

theorem from_list_contract_witness:
  "reachable demo_tree \<and> valid demo_tree \<and> 25 \<in> keys (root demo_tree) \<and>
   \<not> at_capacity demo_tree \<and> get_height (root demo_tree) < max_depth demo_tree \<and>
   from_list demo_tree [Key 3, Key 1, Key 3] = clear_then_insert demo_tree [Key 3, Key 1, Key 3] \<and>
   (\<exists>self'. from_list demo_tree (map Key (to_list demo_tree)) = (Inr (), self') \<and>
             to_list self' = to_list demo_tree) \<and>
   insert_each demo_tree (Key 25 # [Key 60]) = insert_each demo_tree [Key 60]"
proof -
  have v: "valid demo_tree" by (rule reachable_valid[OF demo_tree_reachable])
  have k: "25 \<in> keys (root demo_tree)" by (simp add: demo_tree_def)
  have c: "\<not> at_capacity demo_tree" by (simp add: demo_tree_def at_capacity_def)
  have d: "get_height (root demo_tree) < max_depth demo_tree" by (simp add: demo_tree_def)
  from from_list_contract[OF demo_tree_reachable v k c d, of demo_tree "[Key 3, Key 1, Key 3]" "[Key 60]"]
    demo_tree_reachable v k c d
  show ?thesis by blast
qed

text \<open>C9 as stated fails: with max_size 1, from_list of the keys 5, 5 raises the capacity
  error at the second key instead of skipping it.\<close>

theorem from_list_duplicate_at_capacity:
  "from_list (init (Some 1) 1000) [Key (5::int), Key 5] =
     (Inl AVLTreeCapacityError,
      \<lparr>root = AVLNode 5 NoNode NoNode 1, size_avl = 1, max_size = Some 1, max_depth = 1000\<rparr>)"
  by (simp add: from_list_def insert_avl_def init_def)

text \<open>C10, as amended. On a valid tree below its capacity, insert of a valid key raises the
  depth error exactly when the height of the tree is at least max_depth. Every depth at which
  the recursive insertion is entered is at most the height of the tree; so when the height
  is below max_depth the test \<^verbatim>\<open>depth > self._max_depth\<close> never fires, and the recursive
  insertion started at depth 0 returns.\<close>

theorem depth_error_iff:
  assumes "valid self" "\<not> at_capacity self"
  shows "(fst (insert_avl self (Key k)) = Inl AVLTreeDepthError \<longleftrightarrow>
            get_height (root self) \<ge> max_depth self) \<and>
         (\<forall>d\<in>set (visited_depths (root self) k 0). d \<le> get_height (root self)) \<and>
         (get_height (root self) < max_depth self \<longrightarrow>
            (\<forall>d\<in>set (visited_depths (root self) k 0). \<not> d > max_depth self) \<and>
            (\<exists>n sz. insert_recursive (max_depth self) (root self) k 0 (size_avl self) =
                      Inr (n, sz)))"
proof -
  from assms(1) have b: "bst (root self)" and bal: "balanced (root self)"
    by (simp_all add: valid_def)
  have vis: "\<forall>d\<in>set (visited_depths (root self) k 0). d \<le> get_height (root self)"
    using visited_depths_bound[OF bal, of _ k 0] by simp
  show ?thesis
  proof (cases "get_height (root self) \<ge> max_depth self")
    case True
    with insert_avl_deep[OF assms(2) True, of k] vis show ?thesis by simp
  next
    case False
    then have lt: "get_height (root self) < max_depth self" by simp
    from insert_avl_ok[OF assms(1,2) lt, of k]
    have "fst (insert_avl self (Key k)) \<noteq> Inl AVLTreeDepthError" by auto
    moreover from lt have "0 + get_height (root self) \<le> max_depth self" by simp
    from insert_recursive_ok[OF b bal this, of k "size_avl self"]
    have "\<exists>n sz. insert_recursive (max_depth self) (root self) k 0 (size_avl self) = Inr (n, sz)"
      by blast
    moreover from vis lt
    have "\<forall>d\<in>set (visited_depths (root self) k 0). \<not> d > max_depth self" by fastforce
    ultimately show ?thesis using False vis by simp
  qed
qed

theorem depth_error_iff_witness:
  "valid demo_tree \<and> \<not> at_capacity demo_tree \<and>
   get_height (root demo_tree) < max_depth demo_tree \<and>
   fst (insert_avl demo_tree (Key 35)) \<noteq> Inl AVLTreeDepthError \<and>
   visited_depths (root demo_tree) 35 0 = [0, 1, 2] \<and>
   get_height (root demo_tree) = 3 \<and>
   (\<exists>n sz. insert_recursive (max_depth demo_tree) (root demo_tree) 35 0 (size_avl demo_tree) =
             Inr (n, sz))"
proof -
  have v: "valid demo_tree" by (rule reachable_valid[OF demo_tree_reachable])
  have c: "\<not> at_capacity demo_tree" by (simp add: demo_tree_def at_capacity_def)
  have d: "get_height (root demo_tree) < max_depth demo_tree" by (simp add: demo_tree_def)
  have e: "visited_depths (root demo_tree) 35 0 = [0, 1, 2]" "get_height (root demo_tree) = 3"
    by (simp_all add: demo_tree_def)
  from depth_error_iff[OF v c, of 35] v c d e show ?thesis by auto
qed

text \<open>C10 as stated fails: a tree with max_size 1 and max_depth 1 that holds one key has
  height 1, and insert of another key raises the capacity error, not the depth error.\<close>

theorem depth_error_preempted:
  "insert_avl (init (Some 1) 1) (Key (5::int)) =
     (Inr True, \<lparr>root = AVLNode 5 NoNode NoNode 1, size_avl = 1,
                 max_size = Some 1, max_depth = 1\<rparr>) \<and>
   get_height (root \<lparr>root = AVLNode (5::int) NoNode NoNode 1, size_avl = 1,
                 max_size = Some 1, max_depth = 1\<rparr>) \<ge>
     max_depth \<lparr>root = AVLNode (5::int) NoNode NoNode 1, size_avl = 1,
                 max_size = Some 1, max_depth = 1\<rparr> \<and>
   fst (insert_avl \<lparr>root = AVLNode 5 NoNode NoNode 1, size_avl = 1,
               max_size = Some 1, max_depth = 1\<rparr> (Key (7::int))) = Inl AVLTreeCapacityError"
  by (simp add: insert_avl_def init_def)

end
